theory Spec2Isabelle
  imports Main
begin

section \<open>Common Python notions\<close>

text \<open>
  Exceptions of the Python source are values.  Only the exception classes that the embedded
  functions can raise are listed; \<open>FileNotFoundError\<close>, \<open>IOError\<close> and \<open>NameError\<close> carry
  the offending path or name, \<open>UnicodeDecodeError\<close> is what reading a text file raises on
  bytes that do not decode, \<open>UserError\<close> stands for an exception raised by a bound callable.
\<close>

datatype exn =
    AssertionError
  | ValueError
  | IndexError
  | TypeError
  | ZeroDivisionError
  | NameError string
  | FileNotFoundError string
  | IOError string
  | UnicodeDecodeError
  | UserError string

text \<open>What \<open>except IOError\<close> catches: \<open>IOError\<close> is \<open>OSError\<close>, of which
  \<open>FileNotFoundError\<close> is a subclass; \<open>UnicodeDecodeError\<close> is a \<open>ValueError\<close> and is not caught.\<close>

fun is_IOError :: "exn \<Rightarrow> bool" where
  "is_IOError (IOError path) = True"
| "is_IOError (FileNotFoundError path) = True"
| "is_IOError err = False"

text \<open>
  A call \<open>logger.LEVEL(fmt, args...)\<close> is recorded as the level, the format string and the
  arguments that are program strings (paths, key names, modes, input text); arguments whose
  rendering depends on \<open>repr\<close> of a function or a tuple are left out of the record.
\<close>

datatype level = TRACE | DEBUG | INFO | WARNING | ERROR

datatype logrec = Log level string "string list"

text \<open>Python indexing \<open>sequence[i]\<close>: a negative index counts from the end, an index out of
  range raises \<open>IndexError\<close>.\<close>

definition getitem :: "'a list \<Rightarrow> int \<Rightarrow> exn + 'a" where
  "getitem sequence i =
     (if 0 \<le> i \<and> i < int (length sequence) then Inr (sequence ! nat i)
      else if i < 0 \<and> - int (length sequence) \<le> i then Inr (sequence ! nat (i + int (length sequence)))
      else Inl IndexError)"

section \<open>\<open>iterate_from\<close> (imagemanage.py)\<close>

text \<open>
  A generator is modelled by what it yields, in order, together with the exception that
  ended it, if any.  \<open>yield_while sequence cur stop\<close> is the loop
  \<^verbatim>\<open>while curr < stop: yield sequence[curr]; curr += 1\<close>
  (the source's \<open>curr\<close> is written \<open>cur\<close>, the former being a constant of HOL).
\<close>

function yield_while :: "'a list \<Rightarrow> int \<Rightarrow> int \<Rightarrow> 'a list \<times> exn option" where
  "yield_while sequence cur stop =
     (if cur < stop then
        (case getitem sequence cur of
           Inl e \<Rightarrow> ([], Some e)
         | Inr x \<Rightarrow> (case yield_while sequence (cur + 1) stop of (ys, r) \<Rightarrow> (x # ys, r)))
      else ([], None))"
  by pat_completeness auto
termination
  by (relation "measure (\<lambda>(sequence, cur, stop). nat (stop - cur))") auto

declare yield_while.simps [simp del]

definition iterate_from :: "'a list \<Rightarrow> int \<Rightarrow> 'a list \<times> exn option" where
  "iterate_from sequence start_index =
     (let len = int (length sequence);
          start_index = (if start_index < 0 then start_index + len else start_index);
          cur = start_index
      in if \<not> (0 \<le> cur \<and> cur < len) then ([], Some AssertionError)
         else (case yield_while sequence cur len of
                 (ys, Some e) \<Rightarrow> (ys, Some e)
               | (ys, None) \<Rightarrow>
                   (case yield_while sequence 0 start_index of (zs, r) \<Rightarrow> (ys @ zs, r))))"


section \<open>The image manager window (imagemanage.py)\<close>

subsection \<open>State\<close>

text \<open>
  The input box is a \<open>QLineEdit\<close>; of the Qt widget only what the window reads and writes
  is kept: its text, whether it has focus and whether it is visible.  \<open>setVisible\<close>,
  \<open>setFocus\<close> and \<open>clearFocus\<close> set the corresponding flag and nothing else.
\<close>

record textbox =
  tb_text :: string
  tb_hasFocus :: bool
  tb_isVisible :: bool

definition setVisible :: "bool \<Rightarrow> textbox \<Rightarrow> textbox" where
  "setVisible b t = t\<lparr>tb_isVisible := b\<rparr>"

definition setFocus :: "textbox \<Rightarrow> textbox" where
  "setFocus t = t\<lparr>tb_hasFocus := True\<rparr>"

definition clearFocus :: "textbox \<Rightarrow> textbox" where
  "clearFocus t = t\<lparr>tb_hasFocus := False\<rparr>"

text \<open>
  The fields of \<open>ImageManager\<close> set by its constructor (the source's \<open>_images\<close>,
  \<open>_count\<close>, ... without the underscore; \<open>_image\<close> is the path of the image loaded
  last).  \<open>closed\<close> records a call of \<open>self.close()\<close>.
\<close>

record ImageManager =
  images :: "string list"
  count :: int
  image_ :: "string option"
  index :: int
  real_width :: int
  real_height :: int
  mode :: string
  advance_many :: int
  output_ :: "string list"
  textbox :: textbox
  closed :: bool

text \<open>What a method leaves behind: the log records it wrote, the exception it raised (if
  any) and the state it reached; a state change made before a raise stays.\<close>

type_synonym 's outcome = "logrec list \<times> exn option \<times> 's"

definition MODE_NONE :: string where "MODE_NONE = ''none''"
definition MODE_RENAME :: string where "MODE_RENAME = ''rename''"
definition MODE_GOTO :: string where "MODE_GOTO = ''goto''"
definition MODE_SET_IMAGE :: string where "MODE_SET_IMAGE = ''set-image''"
definition MODE_LABEL :: string where "MODE_LABEL = ''label''"
definition MODE_COMMAND :: string where "MODE_COMMAND = ''command''"

subsection \<open>Showing and hiding the input box\<close>

definition show_textbox :: "ImageManager \<Rightarrow> ImageManager" where
  "show_textbox self =
     (let self = (if \<not> tb_isVisible (textbox self)
                  then self\<lparr>textbox := setVisible True (textbox self)\<rparr> else self)
      in if \<not> tb_hasFocus (textbox self)
         then self\<lparr>textbox := setFocus (textbox self)\<rparr> else self)"

definition hide_textbox :: "ImageManager \<Rightarrow> ImageManager" where
  "hide_textbox self =
     (let self = (if tb_hasFocus (textbox self)
                  then self\<lparr>textbox := clearFocus (textbox self)\<rparr> else self)
      in if tb_isVisible (textbox self)
         then self\<lparr>textbox := setVisible False (textbox self)\<rparr> else self)"

subsection \<open>Index changes\<close>

text \<open>\<open>mime.split("/", 1)\<close>: one element when the separator is absent, two otherwise.\<close>

definition split1 :: "char \<Rightarrow> string \<Rightarrow> string list" where
  "split1 sep s =
     (if sep \<in> set s then [takeWhile (\<lambda>c. c \<noteq> sep) s, tl (dropWhile (\<lambda>c. c \<noteq> sep) s)]
      else [s])"

text \<open>
  \<open>redraw\<close> asks \<open>mimetypes.guess_type\<close> for the type and encoding of the current path;
  that function is a parameter.  Loading the image into the canvas is recorded in
  \<open>image_\<close>.  Unpacking \<open>mime.split("/", 1)\<close> into two names raises \<open>ValueError\<close> when the
  type has no slash.
\<close>

definition redraw ::
  "(string \<Rightarrow> string option \<times> string option) \<Rightarrow> ImageManager \<Rightarrow> ImageManager outcome" where
  "redraw guess_type self =
     (case getitem (images self) (index self) of
        Inl e \<Rightarrow> ([], Some e, self)
      | Inr path \<Rightarrow>
          (case guess_type path of
             (None, encoding) \<Rightarrow> ([], Some ValueError, self)
           | (Some mime, Some encoding) \<Rightarrow>
               ([Log ERROR ''File %r has encoding %r (mime %r)'' [path, encoding, mime]],
                Some ValueError, self)
           | (Some mime, None) \<Rightarrow>
               (case split1 CHR ''/'' mime of
                  [mimecat, mimename] \<Rightarrow>
                    if mimecat = ''image'' then ([], None, self\<lparr>image_ := Some path\<rparr>)
                    else if mimecat = ''video'' then ([], None, self)
                    else ([Log WARNING ''Unhandled mimetype %s for %s'' [mime, path]], None, self)
                | _ \<Rightarrow> ([], Some ValueError, self))))"

definition set_index ::
  "(string \<Rightarrow> string option \<times> string option) \<Rightarrow> int \<Rightarrow> ImageManager \<Rightarrow> ImageManager outcome" where
  "set_index guess_type idx self =
     (if idx < 0 \<or> idx \<ge> count self then ([], Some ValueError, self)
      else (case redraw guess_type (self\<lparr>index := idx\<rparr>) of
              (l, r, self') \<Rightarrow> (Log DEBUG ''Index %d -> %d'' [] # l, r, self')))"

text \<open>Python's \<open>%\<close> raises on a zero divisor and otherwise is HOL's \<open>mod\<close> on \<open>int\<close> (the
  result has the sign of the divisor).\<close>

definition advance_index ::
  "(string \<Rightarrow> string option \<times> string option) \<Rightarrow> int \<Rightarrow> ImageManager \<Rightarrow> ImageManager outcome" where
  "advance_index guess_type by self =
     (if count self = 0 then ([], Some ZeroDivisionError, self)
      else set_index guess_type ((index self + by) mod count self) self)"

subsection \<open>Key actions\<close>

text \<open>The decorator \<open>_blocked_by_input\<close>; \<open>func\<close> is the decorated method with its
  arguments after \<open>self\<close> already supplied.\<close>

definition blocked_by_input ::
  "(ImageManager \<Rightarrow> ImageManager outcome) \<Rightarrow> ImageManager \<Rightarrow> ImageManager outcome" where
  "blocked_by_input func self =
     (if tb_hasFocus (textbox self)
      then ([Log DEBUG ''Input has focus; blocking %r call'' []], None, self)
      else (case func self of (l, r, self') \<Rightarrow> (Log TRACE (''%s('' @ ''*%s, **%s)'') [] # l, r, self')))"

definition close :: "ImageManager \<Rightarrow> ImageManager" where
  "close self = self\<lparr>closed := True\<rparr>"

definition key_on_escape :: "ImageManager \<Rightarrow> ImageManager outcome" where
  "key_on_escape self =
     (let self = self\<lparr>mode := MODE_NONE\<rparr>
      in if tb_hasFocus (textbox self) \<or> tb_isVisible (textbox self)
         then ([], None, hide_textbox self)
         else ([], None, close self))"

definition enter_mode :: "string \<Rightarrow> ImageManager \<Rightarrow> ImageManager outcome" where
  "enter_mode m self = ([], None, show_textbox (self\<lparr>mode := m\<rparr>))"

definition key_prev_image where
  "key_prev_image guess_type = blocked_by_input (advance_index guess_type (- 1))"

definition key_next_image where
  "key_next_image guess_type = blocked_by_input (advance_index guess_type 1)"

definition key_prev_many where
  "key_prev_many guess_type =
     blocked_by_input (\<lambda>self. advance_index guess_type (- advance_many self) self)"

definition key_next_many where
  "key_next_many guess_type =
     blocked_by_input (\<lambda>self. advance_index guess_type (advance_many self) self)"

definition key_rename_image :: "ImageManager \<Rightarrow> ImageManager outcome" where
  "key_rename_image = blocked_by_input (enter_mode MODE_RENAME)"

definition key_find_image :: "ImageManager \<Rightarrow> ImageManager outcome" where
  "key_find_image = blocked_by_input (enter_mode MODE_SET_IMAGE)"

definition key_go_to_image :: "ImageManager \<Rightarrow> ImageManager outcome" where
  "key_go_to_image = blocked_by_input (enter_mode MODE_GOTO)"

definition key_label :: "ImageManager \<Rightarrow> ImageManager outcome" where
  "key_label = blocked_by_input (enter_mode MODE_LABEL)"

definition key_enter_command :: "ImageManager \<Rightarrow> ImageManager outcome" where
  "key_enter_command = blocked_by_input (enter_mode MODE_COMMAND)"

text \<open>The actions whose body is \<open>pass\<close>: delete, help, adjust, toggle text, toggle zoom,
  zoom out, zoom in, mark.\<close>

definition key_pass :: "ImageManager \<Rightarrow> ImageManager outcome" where
  "key_pass = blocked_by_input (\<lambda>self. ([], None, self))"

subsection \<open>Text submission\<close>

definition on_command :: "ImageManager \<Rightarrow> ImageManager outcome" where
  "on_command self =
     (let m = mode self;
          self = self\<lparr>mode := MODE_NONE\<rparr>;
          text = tb_text (textbox self);
          self = hide_textbox self
      in (Log DEBUG ''_on_command: mode=%s text=%r'' [m, text] #
          (if m = MODE_RENAME then []
           else if m = MODE_GOTO then []
           else if m = MODE_SET_IMAGE then []
           else if m = MODE_LABEL then []
           else if m = MODE_COMMAND then []
           else [Log WARNING ''Invalid mode %r (while executing %r)'' [m, text]]),
          None, self))"


section \<open>The keybind table (lib/qhelper.py and \<open>ImageManager._add_keybind\<close>)\<close>

text \<open>
  What can be handed to \<open>KeyBind\<close> as a function: a callable, taking positional and
  keyword arguments and acting on a state \<open>'s\<close>, or a value that is not callable (an
  integer argument, say).  Calling the latter raises \<open>TypeError\<close>.
\<close>

datatype ('a, 's) pyobj =
    Fn "'a list \<Rightarrow> (string \<times> 'a) list \<Rightarrow> 's \<Rightarrow> 's outcome"
  | Val 'a

fun call_obj :: "('a, 's) pyobj \<Rightarrow> 'a list \<Rightarrow> (string \<times> 'a) list \<Rightarrow> 's \<Rightarrow> 's outcome" where
  "call_obj (Fn f) args kwargs s = f args kwargs s"
| "call_obj (Val v) args kwargs s = ([], Some TypeError, s)"

record ('a, 's) KeyBind =
  keys :: string
  kb_functions :: "('a, 's) pyobj list"
  action :: bool

text \<open>\<open>KeyBind.__init__(self, keys, *functions)\<close>; \<open>action\<close> tells whether the
  \<open>QAction\<close> has been created.\<close>

definition KeyBind_init :: "string \<Rightarrow> ('a, 's) pyobj list \<Rightarrow> ('a, 's) KeyBind" where
  "KeyBind_init ks fs = \<lparr>keys = ks, kb_functions = fs, action = False\<rparr>"

text \<open>
  The names bound at module level in lib/qhelper.py: its three imports, \<open>logger\<close> and
  its two definitions.  A name used in a function body is looked up there (no builtin is
  called \<open>functools\<close>).
\<close>

definition qhelper_globals :: "string list" where
  "qhelper_globals = [''logging'', ''QAction'', ''lib'', ''logger'', ''KeyBind'', ''menu_item'']"

definition lookup_global :: "string list \<Rightarrow> string \<Rightarrow> exn + unit" where
  "lookup_global globals name = (if name \<in> set globals then Inr () else Inl (NameError name))"

text \<open>The closure \<open>wrapper\<close> of \<open>bind\<close>: \<open>function\<close> called with \<open>*fargs, *args, **fkwargs, **kwargs\<close>;
  a keyword given twice is a \<open>TypeError\<close>.\<close>

definition wrapper ::
  "('a, 's) pyobj \<Rightarrow> 'a list \<Rightarrow> (string \<times> 'a) list \<Rightarrow> ('a, 's) pyobj" where
  "wrapper function args kwargs =
     Fn (\<lambda>fargs fkwargs s.
           if list_ex (\<lambda>k. k \<in> set (map fst kwargs)) (map fst fkwargs)
           then ([], Some TypeError, s)
           else call_obj function (fargs @ args) (fkwargs @ kwargs) s)"

text \<open>\<open>KeyBind.bind\<close>: the decorator expression \<open>functools.wraps(function)\<close> is evaluated
  first, then the wrapper is appended.\<close>

definition bind ::
  "('a, 's) KeyBind \<Rightarrow> ('a, 's) pyobj \<Rightarrow> 'a list \<Rightarrow> (string \<times> 'a) list \<Rightarrow> exn + ('a, 's) KeyBind" where
  "bind self function args kwargs =
     (case lookup_global qhelper_globals ''functools'' of
        Inl e \<Rightarrow> Inl e
      | Inr _ \<Rightarrow> Inr (self\<lparr>kb_functions := kb_functions self @ [wrapper function args kwargs]\<rparr>))"

definition get_action :: "('a, 's) KeyBind \<Rightarrow> ('a, 's) KeyBind" where
  "get_action self = (if \<not> action self then self\<lparr>action := True\<rparr> else self)"

text \<open>\<open>KeyBind.__call__\<close>: the loop over \<open>self._functions\<close>.  Each turn logs the
  invocation and calls the function; nothing catches what the function raises.\<close>

fun call_each ::
  "string \<Rightarrow> ('a, 's) pyobj list \<Rightarrow> 'a list \<Rightarrow> (string \<times> 'a) list \<Rightarrow> 's \<Rightarrow> 's outcome" where
  "call_each ks [] args kwargs s = ([], None, s)"
| "call_each ks (func # funcs) args kwargs s =
     (case call_obj func args kwargs s of
        (l, Some e, s') \<Rightarrow> (Log DEBUG (''invoke %s: %s('' @ ''*%s, **%s)'') [ks] # l, Some e, s')
      | (l, None, s') \<Rightarrow>
          (case call_each ks funcs args kwargs s' of
             (l', r, s'') \<Rightarrow> (Log DEBUG (''invoke %s: %s('' @ ''*%s, **%s)'') [ks] # l @ l', r, s'')))"

definition KeyBind_call ::
  "('a, 's) KeyBind \<Rightarrow> 'a list \<Rightarrow> (string \<times> 'a) list \<Rightarrow> 's \<Rightarrow> 's outcome" where
  "KeyBind_call self args kwargs s = call_each (keys self) (kb_functions self) args kwargs s"

text \<open>
  \<open>ImageManager._add_keybind\<close> on the table \<open>self._keybinds\<close>.  For a new key the
  function and its arguments all go to \<open>KeyBind(keys, func, *args, **kwargs)\<close>, whose
  constructor takes no keyword; for a known key \<open>bind\<close> is called.
\<close>

definition add_keybind ::
  "(string \<rightharpoonup> ('a, 's) KeyBind) \<Rightarrow> string \<Rightarrow> ('a, 's) pyobj \<Rightarrow> 'a list \<Rightarrow> (string \<times> 'a) list
     \<Rightarrow> (string \<rightharpoonup> ('a, 's) KeyBind) outcome" where
  "add_keybind keybinds ks func args kwargs =
     (case keybinds ks of
        None \<Rightarrow>
          (if kwargs \<noteq> []
           then ([Log DEBUG (''bind new %s to %s('' @ ''*%r, **%r)'') [ks]], Some TypeError, keybinds)
           else ([Log DEBUG (''bind new %s to %s('' @ ''*%r, **%r)'') [ks]], None,
                 keybinds(ks \<mapsto> get_action (KeyBind_init ks (func # map Val args)))))
      | Some kbinst \<Rightarrow>
          (case bind kbinst func args kwargs of
             Inl e \<Rightarrow> ([Log DEBUG (''bind %s to %s('' @ ''*%r, **%r)'') [ks]], Some e, keybinds)
           | Inr kbinst' \<Rightarrow>
               ([Log DEBUG (''bind %s to %s('' @ ''*%r, **%r)'') [ks]], None, keybinds(ks \<mapsto> kbinst'))))"

text \<open>Pressing a key combination fires the \<open>QAction\<close> of its entry, which calls the
  entry without arguments (\<open>triggered=lambda: self()\<close>); a key without entry does nothing.\<close>

definition trigger :: "(string \<rightharpoonup> ('a, 's) KeyBind) \<Rightarrow> string \<Rightarrow> 's \<Rightarrow> 's outcome" where
  "trigger keybinds ks s =
     (case keybinds ks of None \<Rightarrow> ([], None, s) | Some kbinst \<Rightarrow> KeyBind_call kbinst [] [] s)"

section \<open>The file gatherer (lib/fshelper.py and \<open>gather_images\<close>)\<close>

text \<open>
  The file system as the gatherer sees it: the answers of \<open>os.path.exists\<close>,
  \<open>os.path.isdir\<close>, \<open>os.path.isfile\<close> and \<open>os.listdir\<close> (taken not to raise on a path
  for which \<open>isdir\<close> holds).
\<close>

record filesys =
  path_exists :: "string \<Rightarrow> bool"
  isdir :: "string \<Rightarrow> bool"
  isfile :: "string \<Rightarrow> bool"
  listdir :: "string \<Rightarrow> string list"

text \<open>\<open>os.path.join\<close> of two components (POSIX).\<close>

definition path_join :: "string \<Rightarrow> string \<Rightarrow> string" where
  "path_join a b =
     (if b \<noteq> [] \<and> hd b = CHR ''/'' then b
      else if a = [] \<or> last a = CHR ''/'' then a @ b
      else a @ ''/'' @ b)"

text \<open>What a generator has produced when it stops: log records, the exception that ended
  it (if any), and the values yielded.\<close>

type_synonym produced = "logrec list \<times> exn option \<times> string list"

text \<open>\<open>for x in xs: yield from g(x)\<close>: the generators run one after the other; the first
  exception ends the loop.  \<open>None\<close> is a run that did not come to an end.\<close>

fun yield_from_each :: "('a \<Rightarrow> produced option) \<Rightarrow> 'a list \<Rightarrow> produced option" where
  "yield_from_each g [] = Some ([], None, [])"
| "yield_from_each g (x # xs) =
     (case g x of
        None \<Rightarrow> None
      | Some (l, Some e, ys) \<Rightarrow> Some (l, Some e, ys)
      | Some (l, None, ys) \<Rightarrow>
          (case yield_from_each g xs of
             None \<Rightarrow> None
           | Some (l', r, zs) \<Rightarrow> Some (l @ l', r, ys @ zs)))"

text \<open>
  \<open>_get_files_of\<close>.  The recursion follows the directory tree, which need not be finite
  (a link may lead back to a directory above), so the first argument bounds the nesting
  of calls and \<open>None\<close> says that the bound was reached.
\<close>

fun get_files_of ::
  "nat \<Rightarrow> filesys \<Rightarrow> string \<Rightarrow> int \<Rightarrow> int \<Rightarrow> bool \<Rightarrow> produced option" where
  "get_files_of 0 fs entry depth depth_max soft_errors = None"
| "get_files_of (Suc fuel) fs entry depth depth_max soft_errors =
     (if \<not> path_exists fs entry then
        (if \<not> soft_errors
         then Some ([Log ERROR ''Entry %r does not exist'' [entry]],
                    Some (FileNotFoundError entry), [])
         else Some ([Log ERROR ''Entry %r does not exist'' [entry]], None, []))
      else if isdir fs entry then
        (if depth_max = - 1 \<or> depth + 1 \<le> depth_max then
           yield_from_each
             (\<lambda>child_name.
                get_files_of fuel fs (path_join entry child_name) (depth + 1) depth_max soft_errors)
             (listdir fs entry)
         else if depth_max = 0 then Some ([Log INFO ''Skipping directory %r'' [entry]], None, [])
         else Some ([Log INFO ''Skipping directory %r; max depth %d reached'' [entry]], None, []))
      else
        Some (if \<not> isfile fs entry
              then [Log WARNING ''%r neither file not directory; adding anyway'' [entry]]
              else [],
              None, [entry]))"

text \<open>\<open>get_files\<close>: \<open>results.extend\<close> over the entries; it returns the list or raises.\<close>

definition get_files ::
  "nat \<Rightarrow> filesys \<Rightarrow> string list \<Rightarrow> int \<Rightarrow> bool \<Rightarrow> (logrec list \<times> (exn + string list)) option" where
  "get_files fuel fs entry_list recurse_max soft_errors =
     map_option
       (\<lambda>(l, r, results). (l, case r of Some e \<Rightarrow> Inl e | None \<Rightarrow> Inr results))
       (yield_from_each (\<lambda>entry. get_files_of fuel fs entry 0 recurse_max soft_errors) entry_list)"

text \<open>\<open>iter_none\<close> (lib/valuehelper.py).\<close>

definition iter_none :: "'a list option \<Rightarrow> 'a list" where
  "iter_none sequence = (case sequence of None \<Rightarrow> [] | Some xs \<Rightarrow> xs)"

text \<open>\<open>str.rstrip(chars)\<close>.\<close>

definition rstrip :: "string \<Rightarrow> string \<Rightarrow> string" where
  "rstrip chars s = rev (dropWhile (\<lambda>c. c \<in> set chars) (rev s))"

text \<open>
  The loop of \<open>gather_images\<close> over the listing files.  \<open>read_lines file_path\<close> is what
  \<^verbatim>\<open>with open(file_path, "rt") as fobj: for line in fobj: ...\<close> goes through: the lines
  obtained, in order, and the exception that ended the reading, if any (the one of \<open>open\<close>,
  with no line, or one raised between two lines).  Each line is appended to \<open>inputs\<close> as it
  is read, so the lines before a failure stay.  Only an \<open>IOError\<close> is caught, and it is
  raised again unless soft errors are on.  \<open>linesep\<close> is \<open>os.linesep\<close>.
\<close>

fun read_listings ::
  "(string \<Rightarrow> string list \<times> exn option) \<Rightarrow> string \<Rightarrow> bool \<Rightarrow> string list \<Rightarrow> string list
     \<Rightarrow> logrec list \<times> (exn + string list)" where
  "read_listings read_lines linesep soft_errors [] inputs = ([], Inr inputs)"
| "read_listings read_lines linesep soft_errors (file_path # rest) inputs =
     (case read_lines file_path of
        (lines, None) \<Rightarrow>
          read_listings read_lines linesep soft_errors rest (inputs @ map (rstrip linesep) lines)
      | (lines, Some err) \<Rightarrow>
          (if \<not> is_IOError err then ([], Inl err)
           else if \<not> soft_errors then ([], Inl err)
           else (case read_listings read_lines linesep soft_errors rest
                        (inputs @ map (rstrip linesep) lines) of
                   (l, r) \<Rightarrow> (Log ERROR ''Error reading %s: %s'' [file_path] # l, r))))"

definition gather_images ::
  "nat \<Rightarrow> filesys \<Rightarrow> (string \<Rightarrow> string list \<times> exn option) \<Rightarrow> string
     \<Rightarrow> string list option \<Rightarrow> string list option \<Rightarrow> bool \<Rightarrow> bool
     \<Rightarrow> (logrec list \<times> (exn + string list)) option" where
  "gather_images fuel fs read_lines linesep image_list file_list recurse soft_errors =
     (case read_listings read_lines linesep soft_errors (iter_none file_list) (iter_none image_list) of
        (l, Inl err) \<Rightarrow> Some (l, Inl err)
      | (l, Inr inputs) \<Rightarrow>
          (let recurse_max = (if recurse then - 1 else 1)
           in case get_files fuel fs inputs recurse_max soft_errors of
                None \<Rightarrow> None
              | Some (l', Inl err) \<Rightarrow> Some (l @ l', Inl err)
              | Some (l', Inr imgs) \<Rightarrow>
                  Some (l @ l' @ Log DEBUG ''Scanned %d images'' [] #
                          map (\<lambda>img. Log DEBUG ''Image %d/%d: %s'' [img]) imgs,
                        Inr imgs)))"

text \<open>
  A bound on the directory tree below a path: \<open>tree_height_le fs h p\<close> says that walking
  down from \<open>p\<close> through listed children reaches a non-directory or a missing path within
  \<open>h\<close> levels, whichever way is taken.
\<close>

fun tree_height_le :: "filesys \<Rightarrow> nat \<Rightarrow> string \<Rightarrow> bool" where
  "tree_height_le fs 0 p = False"
| "tree_height_le fs (Suc h) p =
     (if path_exists fs p \<and> isdir fs p
      then list_all (\<lambda>child_name. tree_height_le fs h (path_join p child_name)) (listdir fs p)
      else True)"

text \<open>
  A run of \<open>get_files\<close> is known to come to an end within the bound \<open>fuel\<close> when the
  depth limit is non-negative and below the bound, or when the directory tree under every
  entry is lower than the bound.
\<close>

definition walk_bounded :: "filesys \<Rightarrow> nat \<Rightarrow> int \<Rightarrow> string list \<Rightarrow> bool" where
  "walk_bounded fs fuel recurse_max entry_list \<longleftrightarrow>
     (0 \<le> recurse_max \<and> nat recurse_max < fuel) \<or> list_all (tree_height_le fs fuel) entry_list"

text \<open>
  Notions to state what \<open>gather_images\<close> returns.  \<open>listing_ok\<close>: every listing file is
  read to its end, or fails with an \<open>IOError\<close> while soft errors are on.  \<open>gathered_inputs\<close>:
  the direct arguments followed by the lines obtained from the listing files, each without
  its trailing line separator.  \<open>entry_present\<close>: the entry exists and, when it is a
  directory, so does every child listed in it.  \<open>depth_one_listing\<close>: nothing for a
  missing entry, the children that exist and are not directories for a directory, the
  entry itself otherwise.
\<close>

definition listing_ok :: "(string \<Rightarrow> string list \<times> exn option) \<Rightarrow> bool \<Rightarrow> string list \<Rightarrow> bool" where
  "listing_ok read_lines soft_errors files =
     list_all (\<lambda>file_path. case snd (read_lines file_path) of
                              None \<Rightarrow> True
                            | Some err \<Rightarrow> is_IOError err \<and> soft_errors) files"

definition gathered_inputs ::
  "(string \<Rightarrow> string list \<times> exn option) \<Rightarrow> string \<Rightarrow> string list option \<Rightarrow> string list option
     \<Rightarrow> string list" where
  "gathered_inputs read_lines linesep image_list file_list =
     iter_none image_list @
     concat (map (\<lambda>file_path. map (rstrip linesep) (fst (read_lines file_path))) (iter_none file_list))"

definition entry_present :: "filesys \<Rightarrow> string \<Rightarrow> bool" where
  "entry_present fs entry =
     (path_exists fs entry \<and>
      (if isdir fs entry
       then list_all (\<lambda>child_name. path_exists fs (path_join entry child_name)) (listdir fs entry)
       else True))"

definition depth_one_listing :: "filesys \<Rightarrow> string \<Rightarrow> string list" where
  "depth_one_listing fs entry =
     (if \<not> path_exists fs entry then []
      else if isdir fs entry
      then [p \<leftarrow> map (path_join entry) (listdir fs entry). path_exists fs p \<and> \<not> isdir fs p]
      else [entry])"

section \<open>Example states\<close>

text \<open>A window on five images whose input box is open in rename mode, and a
  \<open>guess_type\<close> that takes every path for a PNG image.\<close>

definition window0 :: ImageManager where
  "window0 =
     \<lparr>images = [''a.png'', ''b.png'', ''c.png'', ''d.png'', ''e.png''], count = 5,
      image_ = None, index = 0, real_width = 0, real_height = 0, mode = MODE_RENAME,
      advance_many = 10, output_ = [],
      textbox = \<lparr>tb_text = ''new name'', tb_hasFocus = True, tb_isVisible = True\<rparr>,
      closed = False\<rparr>"

definition guess_png :: "string \<Rightarrow> string option \<times> string option" where
  "guess_png path = (Some ''image/png'', None)"

text \<open>Two callables on a state that lists the calls made: one appends its name and
  returns, the other appends its name and raises.\<close>

definition appender :: "string \<Rightarrow> (int, string list) pyobj" where
  "appender name = Fn (\<lambda>args kwargs s. ([], None, s @ [name]))"

definition raiser :: "string \<Rightarrow> (int, string list) pyobj" where
  "raiser name = Fn (\<lambda>args kwargs s. ([], Some (UserError name), s @ [name]))"

text \<open>A file system: the directory \<open>pics\<close> holds the file \<open>a.png\<close> and the directory
  \<open>sub\<close>, which holds \<open>b.png\<close>; \<open>c.png\<close> is a file beside \<open>pics\<close>.\<close>

definition fs0 :: filesys where
  "fs0 =
     \<lparr>path_exists = (\<lambda>p. p \<in> set [''pics'', ''pics/a.png'', ''pics/sub'', ''pics/sub/b.png'', ''c.png'']),
      isdir = (\<lambda>p. p \<in> set [''pics'', ''pics/sub'']),
      isfile = (\<lambda>p. p \<in> set [''pics/a.png'', ''pics/sub/b.png'', ''c.png'']),
      listdir = (\<lambda>p. if p = ''pics'' then [''a.png'', ''sub'']
                      else if p = ''pics/sub'' then [''b.png''] else [])\<rparr>"

text \<open>Listing files: \<open>list.txt\<close> names \<open>pics\<close> and \<open>c.png\<close>, one per line; reading
  \<open>binary.dat\<close> gives one line and then fails to decode; no other file can be opened.\<close>

definition listings0 :: "string \<Rightarrow> string list \<times> exn option" where
  "listings0 file_path =
     (if file_path = ''list.txt'' then ([''pics'' @ [CHR 0x0A], ''c.png'' @ [CHR 0x0A]], None)
      else if file_path = ''binary.dat'' then ([''c.png'' @ [CHR 0x0A]], Some UnicodeDecodeError)
      else ([], Some (FileNotFoundError file_path)))"

section \<open>Properties of \<open>iterate_from\<close>\<close>

lemma yield_while_range:
  "0 \<le> lo \<Longrightarrow> hi \<le> int (length xs) \<Longrightarrow> lo \<le> hi \<Longrightarrow>
   yield_while xs lo hi = (take (nat (hi - lo)) (drop (nat lo) xs), None)"
proof (induction xs lo hi rule: yield_while.induct)
  case (1 sequence cur stop)
  show ?case
  proof (cases "cur < stop")
    case False
    with 1(4) have "cur = stop" by simp
    then show ?thesis by (simp add: yield_while.simps)
  next
    case True
    have g: "getitem sequence cur = Inr (sequence ! nat cur)"
      using True 1(2,3) by (simp add: getitem_def)
    have ih: "yield_while sequence (cur + 1) stop =
        (take (nat (stop - (cur + 1))) (drop (nat (cur + 1)) sequence), None)"
      using 1(1)[OF True g] True 1(2,3) by simp
    have n: "nat (stop - cur) = Suc (nat (stop - (cur + 1)))" using True by simp
    have d: "drop (nat cur) sequence = sequence ! nat cur # drop (nat (cur + 1)) sequence"
      using True 1(2,3) by (simp add: Cons_nth_drop_Suc nat_add_distrib)
    show ?thesis
      by (subst yield_while.simps) (simp add: True g ih n d)
  qed
qed

lemma iterate_from_nonneg:
  assumes "0 \<le> s" "s < int (length xs)"
  shows "iterate_from xs s = (drop (nat s) xs @ take (nat s) xs, None)"
proof -
  have a: "yield_while xs s (int (length xs)) = (drop (nat s) xs, None)"
    using yield_while_range[of s "int (length xs)" xs] assms by simp
  have b: "yield_while xs 0 s = (take (nat s) xs, None)"
    using yield_while_range[of 0 s xs] assms by simp
  show ?thesis using assms by (simp add: iterate_from_def Let_def a b)
qed

lemma iterate_from_negative:
  assumes "0 \<le> s" "s < int (length xs)"
  shows "iterate_from xs (s - int (length xs)) = (drop (nat s) xs @ take (nat s) xs, None)"
proof -
  have a: "yield_while xs s (int (length xs)) = (drop (nat s) xs, None)"
    using yield_while_range[of s "int (length xs)" xs] assms by simp
  have b: "yield_while xs 0 s = (take (nat s) xs, None)"
    using yield_while_range[of 0 s xs] assms by simp
  show ?thesis using assms by (simp add: iterate_from_def Let_def a b)
qed

lemma rotation_positions:
  assumes "k < length xs"
  shows "drop k xs @ take k xs = map (\<lambda>i. xs ! i) ([k..<length xs] @ [0..<k])"
proof -
  have "drop k xs = map (\<lambda>i. xs ! i) [k..<length xs]"
    by (rule nth_equalityI) auto
  moreover have "take k xs = map (\<lambda>i. xs ! i) [0..<k]"
    using assms by (intro nth_equalityI) auto
  ultimately show ?thesis by simp
qed

text \<open>
  Claim C6.  For a sequence of length \<open>n > 0\<close> and a start index \<open>s\<close> with
  \<open>0 \<le> s \<le> n - 1\<close>, iterating from \<open>s\<close> and iterating from \<open>s - n\<close> yield the same
  elements and end normally: the rotation \<open>seq[s..n-1]\<close> followed by \<open>seq[0..s-1]\<close>, that
  is, the elements at the positions \<open>s, ..., n-1, 0, ..., s-1\<close>, a list in which every
  position of the sequence occurs exactly once.
\<close>

theorem iterate_from_rotation:
  assumes "0 \<le> s" "s < int (length xs)"
  shows "iterate_from xs s = (drop (nat s) xs @ take (nat s) xs, None)
       \<and> iterate_from xs (s - int (length xs)) = iterate_from xs s
       \<and> fst (iterate_from xs s) = map (\<lambda>i. xs ! i) ([nat s..<length xs] @ [0..<nat s])
       \<and> distinct ([nat s..<length xs] @ [0..<nat s])
       \<and> set ([nat s..<length xs] @ [0..<nat s]) = {0..<length xs}"
proof -
  have k: "nat s < length xs" using assms by simp
  have 1: "iterate_from xs s = (drop (nat s) xs @ take (nat s) xs, None)"
    using assms by (rule iterate_from_nonneg)
  have 2: "iterate_from xs (s - int (length xs)) = iterate_from xs s"
    using iterate_from_negative[OF assms] 1 by simp
  have 3: "fst (iterate_from xs s) = map (\<lambda>i. xs ! i) ([nat s..<length xs] @ [0..<nat s])"
    using 1 rotation_positions[OF k] by simp
  have 4: "distinct ([nat s..<length xs] @ [0..<nat s])" by auto
  have 5: "set ([nat s..<length xs] @ [0..<nat s]) = {0..<length xs}" using k by auto
  show ?thesis using 1 2 3 4 5 by blast
qed

theorem iterate_from_rotation_witness:
  "iterate_from [10, 20, 30, 40::nat] 1 = ([20, 30, 40, 10], None)
   \<and> iterate_from [10, 20, 30, 40::nat] (- 3) = ([20, 30, 40, 10], None)"
  using iterate_from_rotation [of 1 "[10, 20, 30, 40::nat]"] by simp

text \<open>
  Claim C7.  For a sequence of length \<open>n\<close> and a start index below \<open>-n\<close> or above \<open>n - 1\<close>,
  iterating ends with the assertion error before anything is yielded; the index is neither
  clamped nor wrapped.
\<close>

theorem iterate_from_out_of_range:
  assumes "s < - int (length xs) \<or> int (length xs) \<le> s"
  shows "iterate_from xs s = ([], Some AssertionError)"
  using assms by (auto simp: iterate_from_def Let_def)

theorem iterate_from_out_of_range_witness:
  "iterate_from [10, 20, 30, 40::nat] 4 = ([], Some AssertionError)
   \<and> iterate_from [10, 20, 30, 40::nat] (- 5) = ([], Some AssertionError)"
  using iterate_from_out_of_range [of 4 "[10, 20, 30, 40::nat]"]
        iterate_from_out_of_range [of "- 5" "[10, 20, 30, 40::nat]"] by simp

section \<open>Properties of the window\<close>

lemma hide_textbox_eq:
  "hide_textbox self =
     self\<lparr>textbox := (textbox self)\<lparr>tb_hasFocus := False, tb_isVisible := False\<rparr>\<rparr>"
  by (cases self, cases "textbox self")
     (auto simp: hide_textbox_def Let_def clearFocus_def setVisible_def)

text \<open>
  Claim C1, as amended.  Text submission captures the current mode, resets the stored
  mode to \<open>NONE\<close>, reads the text of the input box, hides the box (invisible and without
  focus) and dispatches on the captured mode, which for the five input modes does
  nothing and for any other value logs a warning.  It never raises.  After every
  submission the mode is \<open>NONE\<close> and the box is hidden; the text of the box is left as
  it was, and no other field of the window changes.
\<close>

theorem on_command_keeps_text:
  "on_command self =
     (Log DEBUG ''_on_command: mode=%s text=%r'' [mode self, tb_text (textbox self)] #
        (if mode self \<in> {MODE_RENAME, MODE_GOTO, MODE_SET_IMAGE, MODE_LABEL, MODE_COMMAND} then []
         else [Log WARNING ''Invalid mode %r (while executing %r)''
                 [mode self, tb_text (textbox self)]]),
      None,
      self\<lparr>mode := MODE_NONE,
           textbox := (textbox self)\<lparr>tb_hasFocus := False, tb_isVisible := False\<rparr>\<rparr>)"
  by (simp add: on_command_def Let_def hide_textbox_eq)

theorem on_command_keeps_text_witness:
  "fst (snd (on_command window0)) = None
   \<and> mode (snd (snd (on_command window0))) = ''none''
   \<and> textbox (snd (snd (on_command window0))) =
       \<lparr>tb_text = ''new name'', tb_hasFocus = False, tb_isVisible = False\<rparr>"
  using on_command_keeps_text [of window0] by (simp add: window0_def MODE_NONE_def)

text \<open>Claim C1 as stated fails: submitting in rename mode with a non-empty input leaves
  the text in the box.\<close>

theorem on_command_text_not_cleared:
  "mode window0 = MODE_RENAME \<and> tb_text (textbox (snd (snd (on_command window0)))) \<noteq> ''''"
  by (simp add: on_command_def Let_def hide_textbox_eq window0_def)

text \<open>
  Claim C4.  While the input box has focus, an action guarded by \<open>_blocked_by_input\<close>,
  in particular each of the five mode-entry actions, returns without raising and leaves
  the whole window state (mode, visibility of the box and every other field) as it was.
\<close>

theorem blocked_while_input_has_focus:
  assumes "tb_hasFocus (textbox self)"
  shows "snd (blocked_by_input func self) = (None, self)
       \<and> snd (key_rename_image self) = (None, self)
       \<and> snd (key_find_image self) = (None, self)
       \<and> snd (key_go_to_image self) = (None, self)
       \<and> snd (key_label self) = (None, self)
       \<and> snd (key_enter_command self) = (None, self)"
  using assms
  by (simp add: blocked_by_input_def key_rename_image_def key_find_image_def
        key_go_to_image_def key_label_def key_enter_command_def)

theorem blocked_while_input_has_focus_witness:
  "tb_hasFocus (textbox window0) \<and> key_rename_image window0 =
     ([Log DEBUG ''Input has focus; blocking %r call'' []], None, window0)"
proof -
  have h: "tb_hasFocus (textbox window0)" by (simp add: window0_def)
  have "snd (key_rename_image window0) = (None, window0)"
    using blocked_while_input_has_focus [OF h] by simp
  moreover have "fst (key_rename_image window0) = [Log DEBUG ''Input has focus; blocking %r call'' []]"
    using h by (simp add: key_rename_image_def blocked_by_input_def)
  ultimately show ?thesis using h by (simp add: prod_eq_iff)
qed

lemma redraw_cases:
  "redraw guess_type self = (l, r, self') \<Longrightarrow>
   (self' = self \<or> (\<exists>path. self' = self\<lparr>image_ := Some path\<rparr>))
   \<and> (r = None \<or> r = Some ValueError \<or> (r = Some IndexError \<and> getitem (images self) (index self) = Inl IndexError))"
proof -
  assume a: "redraw guess_type self = (l, r, self')"
  show ?thesis
  proof (cases "getitem (images self) (index self)")
    case (Inl e)
    then have "e = IndexError" by (simp add: getitem_def split: if_splits)
    with a Inl show ?thesis by (simp add: redraw_def)
  next
    case (Inr path)
    obtain m enc where g: "guess_type path = (m, enc)" by (cases "guess_type path")
    show ?thesis
    proof (cases m)
      case None
      with a Inr g show ?thesis by (simp add: redraw_def)
    next
      case (Some mime)
      show ?thesis
      proof (cases enc)
        case (Some encoding)
        with a Inr g \<open>m = Some mime\<close> show ?thesis by (simp add: redraw_def)
      next
        case None
        show ?thesis
        proof (cases "CHR ''/'' \<in> set mime")
          case True
          with a Inr g \<open>m = Some mime\<close> None show ?thesis
            by (simp add: redraw_def split1_def split: if_splits) blast+
        next
          case False
          with a Inr g \<open>m = Some mime\<close> None show ?thesis
            by (simp add: redraw_def split1_def)
        qed
      qed
    qed
  qed
qed

lemma index_redraw: "index (snd (snd (redraw guess_type self))) = index self"
proof -
  obtain l r self' where a: "redraw guess_type self = (l, r, self')"
    by (cases "redraw guess_type self") auto
  from redraw_cases [OF a] show ?thesis unfolding a by auto
qed

lemma raised_redraw:
  "getitem (images self) (index self) \<noteq> Inl IndexError \<Longrightarrow>
   fst (snd (redraw guess_type self)) \<in> {None, Some ValueError}"
proof -
  assume n: "getitem (images self) (index self) \<noteq> Inl IndexError"
  obtain l r self' where a: "redraw guess_type self = (l, r, self')"
    by (cases "redraw guess_type self") auto
  from redraw_cases [OF a] n show ?thesis unfolding a by auto
qed

text \<open>
  Claim C5.  For a window on \<open>n > 0\<close> images whose index is in \<open>[0, n)\<close>, advancing by any
  amount, positive or negative, leaves the index at \<open>(index + amount) mod n\<close>, a value in
  \<open>[0, n)\<close>; the only exception that can come out is the \<open>ValueError\<close> of \<open>redraw\<close>, raised
  after the index has been set.  Advancing by 1 from the last image gives 0, advancing
  by -1 from 0 gives \<open>n - 1\<close>.  (With five images, index 0 and amount 10 the index is 0.)
\<close>

theorem advance_index_wraps:
  assumes "count self = int (length (images self))" and "0 < count self"
    and "0 \<le> index self" and "index self < count self"
  shows "index (snd (snd (advance_index guess_type by self))) = (index self + by) mod count self
       \<and> 0 \<le> (index self + by) mod count self \<and> (index self + by) mod count self < count self
       \<and> fst (snd (advance_index guess_type by self)) \<in> {None, Some ValueError}
       \<and> (index self = count self - 1 \<and> by = 1 \<longrightarrow>
            index (snd (snd (advance_index guess_type by self))) = 0)
       \<and> (index self = 0 \<and> by = - 1 \<longrightarrow>
            index (snd (snd (advance_index guess_type by self))) = count self - 1)"
proof -
  let ?j = "(index self + by) mod count self"
  have r: "0 \<le> ?j" "?j < count self" using assms(2) by simp_all
  have a: "advance_index guess_type by self =
        (case redraw guess_type (self\<lparr>index := ?j\<rparr>) of
           (l, r, self') \<Rightarrow> (Log DEBUG ''Index %d -> %d'' [] # l, r, self'))"
    using assms(2) r by (simp add: advance_index_def set_index_def)
  have i: "index (snd (snd (advance_index guess_type by self))) = ?j"
    using index_redraw [of guess_type "self\<lparr>index := ?j\<rparr>"]
    by (simp add: a case_prod_beta)
  have g: "getitem (images (self\<lparr>index := ?j\<rparr>)) (index (self\<lparr>index := ?j\<rparr>)) \<noteq> Inl IndexError"
    using r assms(1) by (simp add: getitem_def)
  have e: "fst (snd (advance_index guess_type by self)) \<in> {None, Some ValueError}"
    using raised_redraw [OF g, of guess_type] by (simp add: a case_prod_beta)
  have w1: "index self = count self - 1 \<and> by = 1 \<longrightarrow> ?j = 0" using assms(2) by auto
  have w2: "index self = 0 \<and> by = - 1 \<longrightarrow> ?j = count self - 1"
    using assms(2) by (auto simp: zmod_minus1)
  show ?thesis unfolding i using r e w1 w2 by blast
qed

theorem advance_index_wraps_witness:
  "count window0 = 5 \<and> index window0 = 0
   \<and> index (snd (snd (advance_index guess_png 10 window0))) = 0
   \<and> index (snd (snd (advance_index guess_png (- 1) window0))) = 4"
  using advance_index_wraps [of window0 guess_png 10] advance_index_wraps [of window0 guess_png "- 1"]
  by (simp add: window0_def)

section \<open>Properties of the keybind table\<close>

lemma bind_raises: "bind self function args kwargs = Inl (NameError ''functools'')"
  by (simp add: bind_def lookup_global_def qhelper_globals_def)

lemma add_keybind_known_key:
  "keybinds ks = Some kbinst \<Longrightarrow>
   add_keybind keybinds ks func args kwargs =
     ([Log DEBUG (''bind %s to %s('' @ ''*%r, **%r)'') [ks]], Some (NameError ''functools''), keybinds)"
  by (simp add: add_keybind_def bind_raises)

lemma add_keybind_new_key:
  "keybinds ks = None \<Longrightarrow>
   add_keybind keybinds ks func args [] =
     ([Log DEBUG (''bind new %s to %s('' @ ''*%r, **%r)'') [ks]], None,
      keybinds(ks \<mapsto> \<lparr>keys = ks, kb_functions = func # map Val args, action = True\<rparr>))"
  by (simp add: add_keybind_def get_action_def KeyBind_init_def)

text \<open>
  Claim C2, on the code.  Registering \<open>first\<close> under the new key \<open>x\<close> succeeds;
  registering \<open>second\<close> under the same key raises \<open>NameError\<close> (\<open>functools\<close> is not
  imported by lib/qhelper.py), the entry still holds \<open>first\<close> alone, and triggering \<open>x\<close>
  invokes \<open>first\<close> only.
\<close>

theorem second_binding_raises_NameError:
  "(case add_keybind Map.empty ''x'' (appender ''first'') [] [] of
      (l1, r1, keybinds1) \<Rightarrow>
        r1 = None \<and>
        (case add_keybind keybinds1 ''x'' (appender ''second'') [] [] of
           (l2, r2, keybinds2) \<Rightarrow>
             r2 = Some (NameError ''functools'') \<and>
             map_option kb_functions (keybinds2 ''x'') = Some [appender ''first''] \<and>
             trigger keybinds2 ''x'' [] =
               ([Log DEBUG (''invoke %s: %s('' @ ''*%s, **%s)'') [''x'']], None, [''first''])))"
  by (simp add: add_keybind_new_key add_keybind_known_key trigger_def KeyBind_call_def appender_def)

lemma call_each_append:
  "call_each ks pre args kwargs s = (l, None, s') \<Longrightarrow>
   call_each ks (pre @ post) args kwargs s =
     (case call_each ks post args kwargs s' of (l', r, s'') \<Rightarrow> (l @ l', r, s''))"
proof (induction pre arbitrary: s l s')
  case Nil
  then show ?case by (simp split: prod.splits)
next
  case (Cons f pre)
  obtain lf rf sf where f: "call_obj f args kwargs s = (lf, rf, sf)"
    by (cases "call_obj f args kwargs s") auto
  from Cons.prems f have rf: "rf = None" by (cases rf) (auto split: prod.splits)
  obtain lp where p: "call_each ks pre args kwargs sf = (lp, None, s')"
    and e: "l = Log DEBUG (''invoke %s: %s('' @ ''*%s, **%s)'') [ks] # lf @ lp"
    using Cons.prems f rf by (auto split: prod.splits)
  show ?case using Cons.IH [OF p] f rf e by (simp split: prod.splits)
qed

text \<open>
  Claim C3, as amended.  When a key combination is triggered, its members are invoked
  in the order they were added, each at most once, as long as each returns normally: if
  the members before \<open>func\<close> have returned normally and \<open>func\<close> returns normally, the
  members after it are invoked next; if \<open>func\<close> raises, the trigger ends there with that
  exception, and the members after \<open>func\<close> are not invoked.
\<close>

theorem exception_ends_trigger:
  assumes "kb_functions self = pre @ func # post"
    and "call_each (keys self) pre args kwargs s = (l, None, s')"
  shows "(call_obj func args kwargs s' = (lf, Some e, s'') \<longrightarrow>
            KeyBind_call self args kwargs s =
              (l @ Log DEBUG (''invoke %s: %s('' @ ''*%s, **%s)'') [keys self] # lf, Some e, s''))
       \<and> (call_obj func args kwargs s' = (lf, None, s'') \<longrightarrow>
            KeyBind_call self args kwargs s =
              (case call_each (keys self) post args kwargs s'' of
                 (l', r, s''') \<Rightarrow>
                   (l @ Log DEBUG (''invoke %s: %s('' @ ''*%s, **%s)'') [keys self] # lf @ l', r, s''')))"
  using call_each_append [OF assms(2), of "func # post"]
  by (auto simp: KeyBind_call_def assms(1) split: prod.splits)

theorem exception_ends_trigger_witness:
  "KeyBind_call (KeyBind_init ''x'' [appender ''first'', raiser ''second'', appender ''third'']) [] [] [] =
     ([Log DEBUG (''invoke %s: %s('' @ ''*%s, **%s)'') [''x''],
       Log DEBUG (''invoke %s: %s('' @ ''*%s, **%s)'') [''x'']],
      Some (UserError ''second''), [''first'', ''second''])"
proof -
  let ?kb = "KeyBind_init ''x'' [appender ''first'', raiser ''second'', appender ''third'']"
  have a: "kb_functions ?kb = [appender ''first''] @ raiser ''second'' # [appender ''third'']"
    by (simp add: KeyBind_init_def)
  have b: "call_each (keys ?kb) [appender ''first''] [] [] [] =
      ([Log DEBUG (''invoke %s: %s('' @ ''*%s, **%s)'') [''x'']], None, [''first''])"
    by (simp add: KeyBind_init_def appender_def)
  have c: "call_obj (raiser ''second'') [] [] [''first''] =
      ([], Some (UserError ''second''), [''first'', ''second''])"
    by (simp add: raiser_def)
  show ?thesis using exception_ends_trigger [OF a b, of "[]" "UserError ''second''" "[''first'', ''second'']"] c
    by (simp add: KeyBind_init_def)
qed

text \<open>Claim C3 as stated fails: the first of two members raises, and the second is not
  invoked (the state lists the first call only, the log one invocation).\<close>

theorem failing_member_stops_later_members:
  "KeyBind_call (KeyBind_init ''x'' [raiser ''first'', appender ''second'']) [] [] [] =
     ([Log DEBUG (''invoke %s: %s('' @ ''*%s, **%s)'') [''x'']], Some (UserError ''first''), [''first''])"
  by (simp add: KeyBind_call_def KeyBind_init_def raiser_def appender_def)

section \<open>Properties of the file gatherer\<close>

lemma yield_from_each_terminates:
  "(\<And>x. x \<in> set xs \<Longrightarrow> g x \<noteq> None) \<Longrightarrow> yield_from_each g xs \<noteq> None"
proof (induction xs)
  case Nil
  show ?case by simp
next
  case (Cons x xs)
  from Cons.prems [of x] obtain l r ys where gx: "g x = Some (l, r, ys)"
    by (cases "g x") auto
  from Cons.IH Cons.prems obtain l' r' zs where ih: "yield_from_each g xs = Some (l', r', zs)"
    by (cases "yield_from_each g xs") auto
  show ?case by (cases r) (simp_all add: gx ih)
qed

lemma yield_from_each_normal:
  "(\<And>x. x \<in> set xs \<Longrightarrow> \<exists>l ys. g x = Some (l, None, ys)) \<Longrightarrow>
   yield_from_each g xs =
     Some (concat (map (\<lambda>x. fst (the (g x))) xs), None,
           concat (map (\<lambda>x. snd (snd (the (g x)))) xs))"
proof (induction xs)
  case Nil
  show ?case by simp
next
  case (Cons x xs)
  from Cons.prems [of x] obtain l ys where gx: "g x = Some (l, None, ys)" by auto
  have ih: "yield_from_each g xs =
     Some (concat (map (\<lambda>x. fst (the (g x))) xs), None,
           concat (map (\<lambda>x. snd (snd (the (g x)))) xs))"
    using Cons.IH Cons.prems by simp
  show ?case by (simp add: gx ih)
qed

lemma yield_from_each_raise_origin:
  "yield_from_each g xs = Some (l, Some e, ys) \<Longrightarrow>
   \<exists>x l0 ys0. x \<in> set xs \<and> g x = Some (l0, Some e, ys0) \<and> set l0 \<subseteq> set l"
proof (induction xs arbitrary: l ys)
  case Nil
  then show ?case by simp
next
  case (Cons x xs)
  obtain l1 r1 y1 where gx: "g x = Some (l1, r1, y1)"
    using Cons.prems by (cases "g x") auto
  show ?case
  proof (cases r1)
    case (Some e1)
    with Cons.prems gx have "e1 = e" "l = l1" by auto
    with gx Some have "x \<in> set (x # xs) \<and> g x = Some (l1, Some e, y1) \<and> set l1 \<subseteq> set l"
      by simp
    then show ?thesis by blast
  next
    case None
    with Cons.prems gx obtain l2 y2 where
      r: "yield_from_each g xs = Some (l2, Some e, y2)" and l: "l = l1 @ l2"
      by (cases "yield_from_each g xs") auto
    from Cons.IH [OF r] obtain x0 l0 ys0 where
      "x0 \<in> set xs" "g x0 = Some (l0, Some e, ys0)" "set l0 \<subseteq> set l2" by blast
    then have "x0 \<in> set (x # xs) \<and> g x0 = Some (l0, Some e, ys0) \<and> set l0 \<subseteq> set l"
      using l by auto
    then show ?thesis by blast
  qed
qed

lemma yield_from_each_log_origin:
  "yield_from_each g xs = Some (l, r, ys) \<Longrightarrow> a \<in> set l \<Longrightarrow>
   \<exists>x l0 r0 ys0. x \<in> set xs \<and> g x = Some (l0, r0, ys0) \<and> a \<in> set l0"
proof (induction xs arbitrary: l r ys)
  case Nil
  then show ?case by simp
next
  case (Cons x xs)
  obtain l1 r1 y1 where gx: "g x = Some (l1, r1, y1)"
    using Cons.prems(1) by (cases "g x") auto
  have here: "a \<in> set l1 \<Longrightarrow> ?case"
  proof -
    assume "a \<in> set l1"
    with gx have "x \<in> set (x # xs) \<and> g x = Some (l1, r1, y1) \<and> a \<in> set l1" by simp
    then show ?case by blast
  qed
  show ?case
  proof (cases r1)
    case (Some e1)
    with Cons.prems(1) gx have "l = l1" by auto
    with here Cons.prems(2) show ?thesis by simp
  next
    case None
    with Cons.prems(1) gx obtain l2 r2 y2 where
      r: "yield_from_each g xs = Some (l2, r2, y2)" and l: "l = l1 @ l2"
      by (cases "yield_from_each g xs") auto
    show ?thesis
    proof (cases "a \<in> set l1")
      case True
      then show ?thesis by (rule here)
    next
      case False
      with l Cons.prems(2) have "a \<in> set l2" by simp
      from Cons.IH [OF r this] obtain x0 l0 r0 ys0 where
        "x0 \<in> set xs" "g x0 = Some (l0, r0, ys0)" "a \<in> set l0" by blast
      then have "x0 \<in> set (x # xs) \<and> g x0 = Some (l0, r0, ys0) \<and> a \<in> set l0" by simp
      then show ?thesis by blast
    qed
  qed
qed

lemma yield_from_each_must_raise:
  "m \<in> set xs \<Longrightarrow> (\<And>x. x \<in> set xs \<Longrightarrow> g x \<noteq> None) \<Longrightarrow>
   \<exists>l e ys. g m = Some (l, Some e, ys) \<Longrightarrow>
   \<exists>l e ys. yield_from_each g xs = Some (l, Some e, ys)"
proof (induction xs)
  case Nil
  then show ?case by simp
next
  case (Cons x xs)
  from Cons.prems(2) [of x] obtain l1 r1 y1 where gx: "g x = Some (l1, r1, y1)"
    by (cases "g x") auto
  show ?case
  proof (cases r1)
    case (Some e1)
    with gx show ?thesis by simp
  next
    case None
    have "m \<in> set xs" using Cons.prems(1,3) gx None by auto
    from Cons.IH [OF this] Cons.prems(2,3) obtain l2 e2 y2 where
      "yield_from_each g xs = Some (l2, Some e2, y2)" by auto
    with gx None show ?thesis by simp
  qed
qed


lemma get_files_of_missing:
  "\<not> path_exists fs m \<Longrightarrow>
   get_files_of (Suc k) fs m depth depth_max soft_errors =
     Some ([Log ERROR ''Entry %r does not exist'' [m]],
           if soft_errors then None else Some (FileNotFoundError m), [])"
  by simp

lemma get_files_of_raises_only_missing:
  "get_files_of fuel fs entry depth depth_max soft_errors = Some (l, Some e, ys) \<Longrightarrow>
   \<not> soft_errors \<and>
   (\<exists>p. e = FileNotFoundError p \<and> \<not> path_exists fs p \<and>
        Log ERROR ''Entry %r does not exist'' [p] \<in> set l)"
proof (induction fuel arbitrary: entry depth l ys)
  case 0
  then show ?case by simp
next
  case (Suc fuel)
  show ?case
  proof (cases "path_exists fs entry")
    case False
    with Suc.prems show ?thesis by (auto split: if_splits)
  next
    case True
    show ?thesis
    proof (cases "isdir fs entry \<and> (depth_max = - 1 \<or> depth + 1 \<le> depth_max)")
      case False
      with True Suc.prems show ?thesis by (auto split: if_splits)
    next
      case descend: True
      let ?g = "\<lambda>child_name.
        get_files_of fuel fs (path_join entry child_name) (depth + 1) depth_max soft_errors"
      from Suc.prems True descend
      have "yield_from_each ?g (listdir fs entry) = Some (l, Some e, ys)" by auto
      from yield_from_each_raise_origin [OF this] obtain c l0 ys0 where
        c: "?g c = Some (l0, Some e, ys0)" and sub: "set l0 \<subseteq> set l" by blast
      from Suc.IH [OF c] sub show ?thesis by blast
    qed
  qed
qed

lemma get_files_of_terminates_bounded:
  "0 \<le> depth_max \<Longrightarrow> nat (depth_max - depth) < fuel \<Longrightarrow>
   get_files_of fuel fs entry depth depth_max soft_errors \<noteq> None"
proof (induction fuel arbitrary: entry depth)
  case 0
  then show ?case by simp
next
  case (Suc fuel)
  show ?case
  proof (cases "path_exists fs entry \<and> isdir fs entry \<and> depth + 1 \<le> depth_max")
    case False
    with Suc.prems(1) show ?thesis by auto
  next
    case True
    then have "nat (depth_max - (depth + 1)) < fuel" using Suc.prems by linarith
    then have "\<And>c. get_files_of fuel fs (path_join entry c) (depth + 1) depth_max soft_errors \<noteq> None"
      using Suc.IH [OF Suc.prems(1)] by blast
    then have "yield_from_each
        (\<lambda>c. get_files_of fuel fs (path_join entry c) (depth + 1) depth_max soft_errors)
        (listdir fs entry) \<noteq> None"
      by (intro yield_from_each_terminates) 
    with True show ?thesis by simp
  qed
qed

lemma get_files_of_terminates_height:
  "tree_height_le fs h entry \<Longrightarrow> h \<le> fuel \<Longrightarrow>
   get_files_of fuel fs entry depth depth_max soft_errors \<noteq> None"
proof (induction fuel arbitrary: h entry depth)
  case 0
  then show ?case by simp
next
  case (Suc fuel)
  from Suc.prems(1) obtain h' where h: "h = Suc h'" by (cases h) auto
  show ?case
  proof (cases "path_exists fs entry \<and> isdir fs entry")
    case False
    then show ?thesis by auto
  next
    case True
    with Suc.prems(1) h
    have "\<And>c. c \<in> set (listdir fs entry) \<Longrightarrow> tree_height_le fs h' (path_join entry c)"
      by (simp add: list_all_iff)
    moreover have "h' \<le> fuel" using Suc.prems(2) h by simp
    ultimately have "\<And>c. c \<in> set (listdir fs entry) \<Longrightarrow>
        get_files_of fuel fs (path_join entry c) (depth + 1) depth_max soft_errors \<noteq> None"
      using Suc.IH by blast
    then have "yield_from_each
        (\<lambda>c. get_files_of fuel fs (path_join entry c) (depth + 1) depth_max soft_errors)
        (listdir fs entry) \<noteq> None"
      by (intro yield_from_each_terminates)
    with True show ?thesis by simp
  qed
qed

lemma get_files_of_no_depth0_notice:
  "depth_max \<noteq> 0 \<Longrightarrow>
   get_files_of fuel fs entry depth depth_max soft_errors = Some (l, r, ys) \<Longrightarrow>
   Log INFO ''Skipping directory %r'' [p] \<notin> set l"
proof (induction fuel arbitrary: entry depth l r ys)
  case 0
  then show ?case by simp
next
  case (Suc fuel)
  show ?case
  proof (cases "path_exists fs entry \<and> isdir fs entry \<and> (depth_max = - 1 \<or> depth + 1 \<le> depth_max)")
    case False
    with Suc.prems show ?thesis by (auto split: if_splits)
  next
    case True
    let ?g = "\<lambda>child_name.
      get_files_of fuel fs (path_join entry child_name) (depth + 1) depth_max soft_errors"
    from Suc.prems(2) True
    have y: "yield_from_each ?g (listdir fs entry) = Some (l, r, ys)" by auto
    show ?thesis
    proof
      assume "Log INFO ''Skipping directory %r'' [p] \<in> set l"
      from yield_from_each_log_origin [OF y this] obtain c l0 r0 ys0 where
        "?g c = Some (l0, r0, ys0)" "Log INFO ''Skipping directory %r'' [p] \<in> set l0" by blast
      with Suc.IH [OF Suc.prems(1)] show False by blast
    qed
  qed
qed


lemma walk_bounded_terminates:
  assumes "walk_bounded fs fuel recurse_max entry_list" and "x \<in> set entry_list"
  shows "get_files_of fuel fs x 0 recurse_max soft_errors \<noteq> None"
proof (cases "0 \<le> recurse_max \<and> nat recurse_max < fuel")
  case True
  then show ?thesis using get_files_of_terminates_bounded [of recurse_max 0 fuel] by simp
next
  case False
  with assms have "tree_height_le fs fuel x" by (simp add: walk_bounded_def list_all_iff)
  then show ?thesis by (rule get_files_of_terminates_height) simp
qed

lemma walk_bounded_fuel:
  assumes "walk_bounded fs fuel recurse_max entry_list" and "x \<in> set entry_list"
  shows "\<exists>k. fuel = Suc k"
proof (cases fuel)
  case 0
  with assms show ?thesis by (auto simp: walk_bounded_def list_all_iff)
next
  case (Suc k)
  then show ?thesis by simp
qed

lemma concat_map_filter_empty:
  "(\<And>x. x \<in> set xs \<Longrightarrow> \<not> P x \<Longrightarrow> f x = []) \<Longrightarrow>
   concat (map f (filter P xs)) = concat (map f xs)"
  by (induction xs) auto

text \<open>
  Claim C8.  Let the entry list contain a path that does not exist, and let the walk be
  bounded.  With soft errors off, \<open>get_files\<close> ends by raising \<open>FileNotFoundError\<close> for a
  path that does not exist, after logging it.  With soft errors on, \<open>get_files\<close> returns
  a list; the missing entry is logged, and the list is the one that the entries that do
  exist give on their own: every other entry is processed and the missing one adds
  nothing.
\<close>

theorem missing_entry_fails_or_is_skipped:
  assumes "m \<in> set entry_list" and "\<not> path_exists fs m"
    and "walk_bounded fs fuel recurse_max entry_list"
  shows "(\<exists>l p. get_files fuel fs entry_list recurse_max False = Some (l, Inl (FileNotFoundError p))
            \<and> \<not> path_exists fs p \<and> Log ERROR ''Entry %r does not exist'' [p] \<in> set l)
       \<and> (\<exists>l results. get_files fuel fs entry_list recurse_max True = Some (l, Inr results)
            \<and> Log ERROR ''Entry %r does not exist'' [m] \<in> set l
            \<and> map_option snd (get_files fuel fs (filter (path_exists fs) entry_list) recurse_max True)
                = Some (Inr results))"
proof
  obtain k where fuel: "fuel = Suc k" using walk_bounded_fuel [OF assms(3,1)] by blast
  let ?g = "\<lambda>entry. get_files_of fuel fs entry 0 recurse_max False"
  have halts: "\<And>x. x \<in> set entry_list \<Longrightarrow> ?g x \<noteq> None"
    using walk_bounded_terminates [OF assms(3)] by blast
  have gm: "\<exists>l e ys. ?g m = Some (l, Some e, ys)"
    using assms(2) by (simp add: fuel)
  from yield_from_each_must_raise [of m entry_list ?g, OF assms(1) halts gm]
  obtain l e ys where y: "yield_from_each ?g entry_list = Some (l, Some e, ys)" by blast
  from yield_from_each_raise_origin [OF y] obtain x l0 ys0 where
    x: "?g x = Some (l0, Some e, ys0)" and sub: "set l0 \<subseteq> set l" by blast
  from get_files_of_raises_only_missing [OF x] obtain p where
    p: "e = FileNotFoundError p" "\<not> path_exists fs p"
       "Log ERROR ''Entry %r does not exist'' [p] \<in> set l0" by blast
  have "get_files fuel fs entry_list recurse_max False = Some (l, Inl (FileNotFoundError p))"
    by (simp add: get_files_def y p(1))
  with p sub
  show "\<exists>l p. get_files fuel fs entry_list recurse_max False = Some (l, Inl (FileNotFoundError p))
            \<and> \<not> path_exists fs p \<and> Log ERROR ''Entry %r does not exist'' [p] \<in> set l"
    by blast
next
  obtain k where fuel: "fuel = Suc k" using walk_bounded_fuel [OF assms(3,1)] by blast
  let ?g = "\<lambda>entry. get_files_of fuel fs entry 0 recurse_max True"
  let ?logs = "\<lambda>xs. concat (map (\<lambda>x. fst (the (?g x))) xs)"
  let ?yields = "\<lambda>xs. concat (map (\<lambda>x. snd (snd (the (?g x)))) xs)"
  have normal: "\<exists>l ys. ?g x = Some (l, None, ys)" if "x \<in> set entry_list" for x
  proof -
    from walk_bounded_terminates [OF assms(3) that, of True] obtain l r ys where
      g: "?g x = Some (l, r, ys)" by (cases "?g x") auto
    have "r = None"
    proof (cases r)
      case (Some e)
      with g get_files_of_raises_only_missing [of fuel fs x 0 recurse_max True l e ys]
      show ?thesis by simp
    qed simp
    with g show ?thesis by simp
  qed
  have all: "yield_from_each ?g entry_list = Some (?logs entry_list, None, ?yields entry_list)"
    by (rule yield_from_each_normal) (rule normal)
  have part: "yield_from_each ?g (filter (path_exists fs) entry_list) =
      Some (?logs (filter (path_exists fs) entry_list), None,
            ?yields (filter (path_exists fs) entry_list))"
    by (rule yield_from_each_normal) (simp add: normal)
  have gone: "snd (snd (the (?g x))) = []" if "\<not> path_exists fs x" for x
    using that by (simp add: fuel)
  have same: "?yields (filter (path_exists fs) entry_list) = ?yields entry_list"
    by (rule concat_map_filter_empty) (rule gone)
  have "fst (the (?g m)) = [Log ERROR ''Entry %r does not exist'' [m]]"
    using assms(2) by (simp add: fuel)
  then have logged: "Log ERROR ''Entry %r does not exist'' [m] \<in> set (?logs entry_list)"
    using assms(1) by force
  have 1: "get_files fuel fs entry_list recurse_max True =
      Some (?logs entry_list, Inr (?yields entry_list))"
    by (simp add: get_files_def all)
  have 2: "map_option snd (get_files fuel fs (filter (path_exists fs) entry_list) recurse_max True) =
      Some (Inr (?yields entry_list))"
    by (simp add: get_files_def part same)
  from 1 logged 2
  show "\<exists>l results. get_files fuel fs entry_list recurse_max True = Some (l, Inr results)
            \<and> Log ERROR ''Entry %r does not exist'' [m] \<in> set l
            \<and> map_option snd (get_files fuel fs (filter (path_exists fs) entry_list) recurse_max True)
                = Some (Inr results)"
    by blast
qed


theorem missing_entry_fails_or_is_skipped_witness:
  "''gone.png'' \<in> set [''pics'', ''gone.png'', ''c.png'']
   \<and> \<not> path_exists fs0 ''gone.png''
   \<and> walk_bounded fs0 2 1 [''pics'', ''gone.png'', ''c.png'']
   \<and> (\<exists>l. get_files 2 fs0 [''pics'', ''gone.png'', ''c.png''] 1 False =
            Some (l, Inl (FileNotFoundError ''gone.png'')))
   \<and> (\<exists>l. get_files 2 fs0 [''pics'', ''gone.png'', ''c.png''] 1 True =
            Some (l, Inr [''pics/a.png'', ''c.png''])
          \<and> Log ERROR ''Entry %r does not exist'' [''gone.png''] \<in> set l)
   \<and> map_option snd (get_files 2 fs0 [''pics'', ''c.png''] 1 True) =
       Some (Inr [''pics/a.png'', ''c.png''])"
proof -
  have h1: "''gone.png'' \<in> set [''pics'', ''gone.png'', ''c.png'']" by simp
  have h2: "\<not> path_exists fs0 ''gone.png''" by (simp add: fs0_def)
  have h3: "walk_bounded fs0 2 1 [''pics'', ''gone.png'', ''c.png'']"
    by (simp add: walk_bounded_def)
  have f: "filter (path_exists fs0) [''pics'', ''gone.png'', ''c.png''] = [''pics'', ''c.png'']"
    by (simp add: fs0_def)
  have e: "map_option snd (get_files 2 fs0 [''pics'', ''c.png''] 1 True) =
       Some (Inr [''pics/a.png'', ''c.png''])"
    by (simp add: get_files_def fs0_def path_join_def numeral_2_eq_2)
  have m: "get_files 2 fs0 [''pics'', ''gone.png'', ''c.png''] 1 False =
      Some ([Log INFO ''Skipping directory %r; max depth %d reached'' [''pics/sub''],
             Log ERROR ''Entry %r does not exist'' [''gone.png'']],
            Inl (FileNotFoundError ''gone.png''))"
    by (simp add: get_files_def fs0_def path_join_def numeral_2_eq_2)
  from missing_entry_fails_or_is_skipped [OF h1 h2 h3] obtain l results where
    r: "get_files 2 fs0 [''pics'', ''gone.png'', ''c.png''] 1 True = Some (l, Inr results)"
      "Log ERROR ''Entry %r does not exist'' [''gone.png''] \<in> set l"
      "map_option snd (get_files 2 fs0 (filter (path_exists fs0) [''pics'', ''gone.png'', ''c.png'']) 1 True)
         = Some (Inr results)"
    by blast
  from r(3) have "results = [''pics/a.png'', ''c.png'']" unfolding f e by simp
  with r(1,2) h1 h2 h3 m e show ?thesis by simp
qed

lemma depth_one_children:
  assumes "soft_errors \<or> list_all (\<lambda>c. path_exists fs (path_join d c)) cs"
  shows "\<exists>l. yield_from_each (\<lambda>c. get_files_of (Suc k) fs (path_join d c) 1 1 soft_errors) cs =
           Some (l, None, [p \<leftarrow> map (path_join d) cs. path_exists fs p \<and> \<not> isdir fs p])"
  using assms
proof (induction cs)
  case Nil
  show ?case by simp
next
  case (Cons c cs)
  from Cons have "\<exists>l. yield_from_each (\<lambda>c. get_files_of (Suc k) fs (path_join d c) 1 1 soft_errors) cs =
           Some (l, None, [p \<leftarrow> map (path_join d) cs. path_exists fs p \<and> \<not> isdir fs p])"
    by auto
  then obtain l where ih: "yield_from_each (\<lambda>c. get_files_of (Suc k) fs (path_join d c) 1 1 soft_errors) cs =
           Some (l, None, [p \<leftarrow> map (path_join d) cs. path_exists fs p \<and> \<not> isdir fs p])"
    by blast
  have ok: "soft_errors \<or> path_exists fs (path_join d c)" using Cons.prems by auto
  show ?case
  proof (cases "path_exists fs (path_join d c)")
    case False
    with ok have "soft_errors" by simp
    with False ih show ?thesis by simp
  next
    case True
    then show ?thesis using ih by (cases "isdir fs (path_join d c)") simp_all
  qed
qed

lemma get_files_of_depth_one:
  assumes "soft_errors \<or> entry_present fs entry"
  shows "\<exists>l. get_files_of (Suc (Suc k)) fs entry 0 1 soft_errors =
           Some (l, None, depth_one_listing fs entry)"
proof (cases "path_exists fs entry")
  case False
  with assms have "soft_errors" by (simp add: entry_present_def)
  with False show ?thesis by (simp add: depth_one_listing_def)
next
  case True
  show ?thesis
  proof (cases "isdir fs entry")
    case False
    with True show ?thesis by (simp add: depth_one_listing_def)
  next
    case dir: True
    from assms True dir
    have "soft_errors \<or> list_all (\<lambda>c. path_exists fs (path_join entry c)) (listdir fs entry)"
      by (simp add: entry_present_def)
    from depth_one_children [OF this, of k] obtain l where
      "yield_from_each (\<lambda>c. get_files_of (Suc k) fs (path_join entry c) 1 1 soft_errors)
         (listdir fs entry) =
       Some (l, None, [p \<leftarrow> map (path_join entry) (listdir fs entry). path_exists fs p \<and> \<not> isdir fs p])"
      by blast
    with True dir show ?thesis by (simp add: depth_one_listing_def)
  qed
qed

lemma get_files_depth_one:
  assumes "soft_errors \<or> list_all (entry_present fs) entry_list"
  shows "\<exists>l. yield_from_each (\<lambda>entry. get_files_of (Suc (Suc k)) fs entry 0 1 soft_errors) entry_list =
           Some (l, None, concat (map (depth_one_listing fs) entry_list))"
  using assms
proof (induction entry_list)
  case Nil
  show ?case by simp
next
  case (Cons e es)
  from Cons.prems have "soft_errors \<or> entry_present fs e" by auto
  from get_files_of_depth_one [OF this, of k] obtain l1 where
    1: "get_files_of (Suc (Suc k)) fs e 0 1 soft_errors = Some (l1, None, depth_one_listing fs e)"
    by blast
  from Cons obtain l2 where
    2: "yield_from_each (\<lambda>entry. get_files_of (Suc (Suc k)) fs entry 0 1 soft_errors) es =
           Some (l2, None, concat (map (depth_one_listing fs) es))"
    by auto
  show ?case using 1 2 by (simp del: get_files_of.simps)
qed

lemma get_files_of_absent_raises:
  assumes "\<not> entry_present fs entry"
  shows "\<exists>l e ys. get_files_of (Suc (Suc k)) fs entry 0 1 False = Some (l, Some e, ys)"
proof (cases "path_exists fs entry")
  case False
  then show ?thesis by simp
next
  case True
  with assms have dir: "isdir fs entry"
    and "\<not> list_all (\<lambda>c. path_exists fs (path_join entry c)) (listdir fs entry)"
    by (auto simp: entry_present_def split: if_splits)
  then obtain c where c: "c \<in> set (listdir fs entry)" "\<not> path_exists fs (path_join entry c)"
    by (auto simp: list_all_iff)
  let ?g = "\<lambda>c. get_files_of (Suc k) fs (path_join entry c) 1 1 False"
  have halts: "\<And>x. x \<in> set (listdir fs entry) \<Longrightarrow> ?g x \<noteq> None"
    using get_files_of_terminates_bounded [of 1 1 "Suc k"] by simp
  have "\<exists>l e ys. ?g c = Some (l, Some e, ys)" using c(2) by simp
  from yield_from_each_must_raise [of c "listdir fs entry" ?g, OF c(1) halts this]
  show ?thesis using True dir by simp
qed

lemma get_files_depth_one_fails:
  assumes "\<not> list_all (entry_present fs) entry_list"
  shows "\<exists>l p. get_files (Suc (Suc k)) fs entry_list 1 False = Some (l, Inl (FileNotFoundError p))
           \<and> \<not> path_exists fs p"
proof -
  from assms obtain x where x: "x \<in> set entry_list" "\<not> entry_present fs x"
    by (auto simp: list_all_iff)
  let ?g = "\<lambda>entry. get_files_of (Suc (Suc k)) fs entry 0 1 False"
  have halts: "\<And>e. e \<in> set entry_list \<Longrightarrow> ?g e \<noteq> None"
    using get_files_of_terminates_bounded [of 1 0 "Suc (Suc k)"] by simp
  from yield_from_each_must_raise [of x entry_list ?g, OF x(1) halts
      get_files_of_absent_raises [OF x(2)]]
  obtain l e ys where y: "yield_from_each ?g entry_list = Some (l, Some e, ys)" by blast
  from yield_from_each_raise_origin [OF y] obtain x0 l0 ys0 where
    "?g x0 = Some (l0, Some e, ys0)" by blast
  from get_files_of_raises_only_missing [OF this] obtain p where
    "e = FileNotFoundError p" "\<not> path_exists fs p" by blast
  with y show ?thesis by (simp add: get_files_def)
qed

lemma read_listings_ok:
  "listing_ok read_lines soft_errors files \<Longrightarrow>
   \<exists>l. read_listings read_lines linesep soft_errors files inputs =
     (l, Inr (inputs @ concat (map (\<lambda>file_path. map (rstrip linesep) (fst (read_lines file_path))) files)))"
proof (induction files arbitrary: inputs)
  case Nil
  show ?case by simp
next
  case (Cons f files)
  obtain lines r where f: "read_lines f = (lines, r)" by (cases "read_lines f")
  from Cons.prems have rest: "listing_ok read_lines soft_errors files"
    by (simp add: listing_ok_def)
  from Cons.IH [OF rest, of "inputs @ map (rstrip linesep) lines"] obtain l where
    ih: "read_listings read_lines linesep soft_errors files (inputs @ map (rstrip linesep) lines) =
      (l, Inr ((inputs @ map (rstrip linesep) lines) @
               concat (map (\<lambda>file_path. map (rstrip linesep) (fst (read_lines file_path))) files)))"
    by blast
  show ?case
  proof (cases r)
    case None
    with f ih show ?thesis by simp
  next
    case (Some err)
    with Cons.prems f have "is_IOError err" "soft_errors" by (simp_all add: listing_ok_def)
    with Some f ih show ?thesis by simp
  qed
qed

lemma read_listings_fails:
  "listing_ok read_lines soft_errors pre \<Longrightarrow> snd (read_lines file_path) = Some err \<Longrightarrow>
   \<not> (is_IOError err \<and> soft_errors) \<Longrightarrow>
   \<exists>l. read_listings read_lines linesep soft_errors (pre @ file_path # post) inputs = (l, Inl err)"
proof (induction pre arbitrary: inputs)
  case Nil
  obtain lines where "read_lines file_path = (lines, Some err)"
    using Nil.prems(2) by (cases "read_lines file_path") auto
  with Nil.prems(3) show ?case by auto
next
  case (Cons f pre)
  obtain lines r where f: "read_lines f = (lines, r)" by (cases "read_lines f")
  from Cons.prems(1) have rest: "listing_ok read_lines soft_errors pre"
    by (simp add: listing_ok_def)
  from Cons.IH [OF rest Cons.prems(2,3), of "inputs @ map (rstrip linesep) lines"] obtain l where
    ih: "read_listings read_lines linesep soft_errors (pre @ file_path # post)
           (inputs @ map (rstrip linesep) lines) = (l, Inl err)"
    by blast
  show ?case
  proof (cases r)
    case None
    with f ih show ?thesis by simp
  next
    case (Some e)
    with Cons.prems(1) f have "is_IOError e" "soft_errors" by (simp_all add: listing_ok_def)
    with Some f ih show ?thesis by simp
  qed
qed

lemma read_listings_log:
  "read_listings read_lines linesep soft_errors files inputs = (l, r) \<Longrightarrow> a \<in> set l \<Longrightarrow>
   \<exists>file_path. a = Log ERROR ''Error reading %s: %s'' [file_path]"
proof (induction files arbitrary: inputs l r)
  case Nil
  then show ?case by simp
next
  case (Cons f rest)
  obtain lines e where f: "read_lines f = (lines, e)" by (cases "read_lines f")
  show ?case
  proof (cases e)
    case None
    with f Cons.prems Cons.IH show ?thesis by auto
  next
    case (Some err)
    show ?thesis
    proof (cases "is_IOError err \<and> soft_errors")
      case False
      with Some f Cons.prems(1) have "l = []" by (auto split: if_splits)
      with Cons.prems(2) show ?thesis by simp
    next
      case True
      obtain l' r' where rest: "read_listings read_lines linesep soft_errors rest
          (inputs @ map (rstrip linesep) lines) = (l', r')"
        by (cases "read_listings read_lines linesep soft_errors rest (inputs @ map (rstrip linesep) lines)")
      with Some f True Cons.prems(1) have "l = Log ERROR ''Error reading %s: %s'' [f] # l'"
        by simp
      with Cons.prems(2) Cons.IH [OF rest] show ?thesis by auto
    qed
  qed
qed


lemma get_files_no_depth0_notice:
  assumes "recurse_max \<noteq> 0"
    and "get_files fuel fs entry_list recurse_max soft_errors = Some (l, r)"
  shows "Log INFO ''Skipping directory %r'' [p] \<notin> set l"
proof
  assume a: "Log INFO ''Skipping directory %r'' [p] \<in> set l"
  from assms(2) obtain r' ys where
    y: "yield_from_each (\<lambda>entry. get_files_of fuel fs entry 0 recurse_max soft_errors) entry_list =
          Some (l, r', ys)"
    by (auto simp: get_files_def)
  from yield_from_each_log_origin [OF y a] obtain x l0 r0 ys0 where
    "get_files_of fuel fs x 0 recurse_max soft_errors = Some (l0, r0, ys0)"
    "Log INFO ''Skipping directory %r'' [p] \<in> set l0" by blast
  with get_files_of_no_depth0_notice [OF assms(1)] show False by blast
qed

lemma gather_images_no_depth0_notice:
  assumes "gather_images fuel fs read_lines linesep image_list file_list recurse soft_errors = Some (l, r)"
  shows "Log INFO ''Skipping directory %r'' [p] \<notin> set l"
proof
  assume a: "Log INFO ''Skipping directory %r'' [p] \<in> set l"
  obtain l1 r1 where rd: "read_listings read_lines linesep soft_errors (iter_none file_list)
      (iter_none image_list) = (l1, r1)"
    by (cases "read_listings read_lines linesep soft_errors (iter_none file_list) (iter_none image_list)")
  have n1: "Log INFO ''Skipping directory %r'' [p] \<notin> set l1"
    using read_listings_log [OF rd] by auto
  have nz: "(if recurse then - 1 else (1::int)) \<noteq> 0" by simp
  show False
  proof (cases r1)
    case (Inl err)
    with assms rd have "l = l1" by (simp add: gather_images_def)
    with a n1 show False by simp
  next
    case (Inr inputs)
    from assms rd Inr obtain l2 r2 where
      g: "get_files fuel fs inputs (if recurse then - 1 else 1) soft_errors = Some (l2, r2)"
      by (cases "get_files fuel fs inputs (if recurse then - 1 else 1) soft_errors")
         (auto simp: gather_images_def Let_def)
    have n2: "Log INFO ''Skipping directory %r'' [p] \<notin> set l2"
      using get_files_no_depth0_notice [OF nz g] .
    from assms rd Inr g a n1 n2 show False
      by (cases r2) (auto simp: gather_images_def Let_def)
  qed
qed

lemma gather_images_result:
  assumes "read_listings read_lines linesep soft_errors (iter_none file_list) (iter_none image_list) =
      (l0, Inr inputs)"
  shows "map_option snd
      (gather_images fuel fs read_lines linesep image_list file_list recurse soft_errors) =
    map_option snd (get_files fuel fs inputs (if recurse then - 1 else 1) soft_errors)"
  by (cases "get_files fuel fs inputs (if recurse then - 1 else 1) soft_errors")
     (auto simp: gather_images_def assms Let_def split: sum.splits)

text \<open>
  Claim C10.  \<open>gather_images\<close> calls \<open>get_files\<close> on the direct arguments followed by the
  lines of the listing files, with maximum depth 1 without the recurse flag and - 1 with
  it, never 0.  Without the flag, when the listing files are read (or fail with an
  \<open>IOError\<close> under soft errors), the result is fixed: if soft errors are on or every entry
  and every child of a directory entry exists, it is the list made of each plain entry
  and, for each directory entry, its children that are not directories, in order; so the
  files directly inside a directory argument are included and only its subdirectories
  are skipped.  If soft errors are off and something is missing, the gathering raises
  \<open>FileNotFoundError\<close>.  A listing file whose reading fails otherwise (any failure with
  soft errors off, a failure other than \<open>IOError\<close> with soft errors on) makes the
  gathering raise that exception.  Whatever the arguments and the flag, the notice of
  the depth-0 case (\<open>Skipping directory %r\<close>) is never logged.
\<close>

theorem gather_images_depth:
  "(listing_ok read_lines soft_errors (iter_none file_list) \<longrightarrow>
      map_option snd
        (gather_images fuel fs read_lines linesep image_list file_list recurse soft_errors) =
      map_option snd
        (get_files fuel fs (gathered_inputs read_lines linesep image_list file_list)
           (if recurse then - 1 else 1) soft_errors))
   \<and> (listing_ok read_lines soft_errors (iter_none file_list) \<and>
      (soft_errors \<or>
       list_all (entry_present fs) (gathered_inputs read_lines linesep image_list file_list)) \<longrightarrow>
      map_option snd
        (gather_images (Suc (Suc k)) fs read_lines linesep image_list file_list False soft_errors) =
      Some (Inr (concat (map (depth_one_listing fs)
                   (gathered_inputs read_lines linesep image_list file_list)))))
   \<and> (listing_ok read_lines False (iter_none file_list) \<and>
      \<not> list_all (entry_present fs) (gathered_inputs read_lines linesep image_list file_list) \<longrightarrow>
      (\<exists>p. map_option snd
             (gather_images (Suc (Suc k)) fs read_lines linesep image_list file_list False False) =
           Some (Inl (FileNotFoundError p)) \<and> \<not> path_exists fs p))
   \<and> (iter_none file_list = pre @ file_path # post \<and> listing_ok read_lines soft_errors pre \<and>
      snd (read_lines file_path) = Some err \<and> \<not> (is_IOError err \<and> soft_errors) \<longrightarrow>
      map_option snd
        (gather_images fuel fs read_lines linesep image_list file_list recurse soft_errors) =
      Some (Inl err))
   \<and> (gather_images fuel fs read_lines linesep image_list file_list recurse soft_errors = Some (l, r) \<longrightarrow>
      Log INFO ''Skipping directory %r'' [p'] \<notin> set l)"
proof -
  let ?inputs = "gathered_inputs read_lines linesep image_list file_list"
  have link: "map_option snd
        (gather_images fuel' fs read_lines linesep image_list file_list recurse' soft) =
      map_option snd (get_files fuel' fs ?inputs (if recurse' then - 1 else 1) soft)"
    if "listing_ok read_lines soft (iter_none file_list)" for fuel' recurse' soft
  proof -
    from read_listings_ok [OF that, of linesep "iter_none image_list"] obtain l0 where
      "read_listings read_lines linesep soft (iter_none file_list) (iter_none image_list) =
         (l0, Inr ?inputs)"
      by (auto simp: gathered_inputs_def)
    then show ?thesis by (rule gather_images_result)
  qed
  have 1: "listing_ok read_lines soft_errors (iter_none file_list) \<longrightarrow>
      map_option snd
        (gather_images fuel fs read_lines linesep image_list file_list recurse soft_errors) =
      map_option snd (get_files fuel fs ?inputs (if recurse then - 1 else 1) soft_errors)"
    using link by blast
  have 2: "listing_ok read_lines soft_errors (iter_none file_list) \<and>
      (soft_errors \<or> list_all (entry_present fs) ?inputs) \<longrightarrow>
      map_option snd
        (gather_images (Suc (Suc k)) fs read_lines linesep image_list file_list False soft_errors) =
      Some (Inr (concat (map (depth_one_listing fs) ?inputs)))"
  proof
    assume a: "listing_ok read_lines soft_errors (iter_none file_list) \<and>
      (soft_errors \<or> list_all (entry_present fs) ?inputs)"
    then have "soft_errors \<or> list_all (entry_present fs) ?inputs" by simp
    from get_files_depth_one [OF this, of k] obtain lg where
      "yield_from_each (\<lambda>entry. get_files_of (Suc (Suc k)) fs entry 0 1 soft_errors) ?inputs =
         Some (lg, None, concat (map (depth_one_listing fs) ?inputs))"
      by blast
    then have "map_option snd (get_files (Suc (Suc k)) fs ?inputs 1 soft_errors) =
        Some (Inr (concat (map (depth_one_listing fs) ?inputs)))"
      by (simp add: get_files_def)
    with link [of soft_errors "Suc (Suc k)" False] a
    show "map_option snd
        (gather_images (Suc (Suc k)) fs read_lines linesep image_list file_list False soft_errors) =
      Some (Inr (concat (map (depth_one_listing fs) ?inputs)))"
      by simp
  qed
  have 3: "listing_ok read_lines False (iter_none file_list) \<and>
      \<not> list_all (entry_present fs) ?inputs \<longrightarrow>
      (\<exists>p. map_option snd
             (gather_images (Suc (Suc k)) fs read_lines linesep image_list file_list False False) =
           Some (Inl (FileNotFoundError p)) \<and> \<not> path_exists fs p)"
  proof
    assume a: "listing_ok read_lines False (iter_none file_list) \<and>
      \<not> list_all (entry_present fs) ?inputs"
    then have "\<not> list_all (entry_present fs) ?inputs" by simp
    from get_files_depth_one_fails [OF this, of k] obtain lg p where
      "get_files (Suc (Suc k)) fs ?inputs 1 False = Some (lg, Inl (FileNotFoundError p))"
      "\<not> path_exists fs p" by blast
    with link [of False "Suc (Suc k)" False] a
    show "\<exists>p. map_option snd
             (gather_images (Suc (Suc k)) fs read_lines linesep image_list file_list False False) =
           Some (Inl (FileNotFoundError p)) \<and> \<not> path_exists fs p"
      by auto
  qed
  have 4: "iter_none file_list = pre @ file_path # post \<and> listing_ok read_lines soft_errors pre \<and>
      snd (read_lines file_path) = Some err \<and> \<not> (is_IOError err \<and> soft_errors) \<longrightarrow>
      map_option snd
        (gather_images fuel fs read_lines linesep image_list file_list recurse soft_errors) =
      Some (Inl err)"
  proof
    assume a: "iter_none file_list = pre @ file_path # post \<and> listing_ok read_lines soft_errors pre \<and>
      snd (read_lines file_path) = Some err \<and> \<not> (is_IOError err \<and> soft_errors)"
    then have "listing_ok read_lines soft_errors pre" "snd (read_lines file_path) = Some err"
      "\<not> (is_IOError err \<and> soft_errors)" by simp_all
    from read_listings_fails [OF this, of linesep post "iter_none image_list"] obtain l0 where
      "read_listings read_lines linesep soft_errors (pre @ file_path # post) (iter_none image_list) =
         (l0, Inl err)" by blast
    with a show "map_option snd
        (gather_images fuel fs read_lines linesep image_list file_list recurse soft_errors) =
      Some (Inl err)"
      by (simp add: gather_images_def)
  qed
  have 5: "gather_images fuel fs read_lines linesep image_list file_list recurse soft_errors = Some (l, r) \<longrightarrow>
      Log INFO ''Skipping directory %r'' [p'] \<notin> set l"
    using gather_images_no_depth0_notice by blast
  from 1 2 3 4 5 show ?thesis by blast
qed


theorem gather_images_depth_witness:
  "listing_ok listings0 False (iter_none (Some [''list.txt'']))
   \<and> gathered_inputs listings0 [CHR 0x0A] None (Some [''list.txt'']) = [''pics'', ''c.png'']
   \<and> list_all (entry_present fs0) [''pics'', ''c.png'']
   \<and> map_option snd
       (gather_images (Suc (Suc 0)) fs0 listings0 [CHR 0x0A] None (Some [''list.txt'']) False False) =
     Some (Inr [''pics/a.png'', ''c.png''])
   \<and> snd (listings0 ''binary.dat'') = Some UnicodeDecodeError
   \<and> map_option snd
       (gather_images (Suc (Suc 0)) fs0 listings0 [CHR 0x0A] (Some [''pics''])
          (Some [''binary.dat'', ''list.txt'']) False True) =
     Some (Inl UnicodeDecodeError)"
proof -
  have ok: "listing_ok listings0 False (iter_none (Some [''list.txt'']))"
    by (simp add: listing_ok_def iter_none_def listings0_def)
  have g: "gathered_inputs listings0 [CHR 0x0A] None (Some [''list.txt'']) = [''pics'', ''c.png'']"
    by (simp add: gathered_inputs_def iter_none_def listings0_def rstrip_def)
  have pres: "list_all (entry_present fs0) [''pics'', ''c.png'']"
    by (simp add: entry_present_def fs0_def path_join_def)
  have d: "concat (map (depth_one_listing fs0) [''pics'', ''c.png'']) = [''pics/a.png'', ''c.png'']"
    by (simp add: depth_one_listing_def fs0_def path_join_def)
  have "listing_ok listings0 False (iter_none (Some [''list.txt''])) \<and>
      (False \<or> list_all (entry_present fs0)
         (gathered_inputs listings0 [CHR 0x0A] None (Some [''list.txt'']))) \<longrightarrow>
      map_option snd
        (gather_images (Suc (Suc 0)) fs0 listings0 [CHR 0x0A] None (Some [''list.txt'']) False False) =
      Some (Inr (concat (map (depth_one_listing fs0)
                   (gathered_inputs listings0 [CHR 0x0A] None (Some [''list.txt''])))))"
    using gather_images_depth [where read_lines = listings0 and soft_errors = False
        and file_list = "Some [''list.txt'']" and image_list = None and fs = fs0
        and linesep = "[CHR 0x0A]" and k = 0]
    by blast
  then have a: "map_option snd
       (gather_images (Suc (Suc 0)) fs0 listings0 [CHR 0x0A] None (Some [''list.txt'']) False False) =
     Some (Inr [''pics/a.png'', ''c.png''])"
    using ok pres unfolding g d by simp
  have u: "snd (listings0 ''binary.dat'') = Some UnicodeDecodeError"
    by (simp add: listings0_def)
  have "iter_none (Some [''binary.dat'', ''list.txt'']) = [] @ ''binary.dat'' # [''list.txt''] \<and>
      listing_ok listings0 True [] \<and>
      snd (listings0 ''binary.dat'') = Some UnicodeDecodeError \<and>
      \<not> (is_IOError UnicodeDecodeError \<and> True) \<longrightarrow>
      map_option snd
        (gather_images (Suc (Suc 0)) fs0 listings0 [CHR 0x0A] (Some [''pics''])
           (Some [''binary.dat'', ''list.txt'']) False True) =
      Some (Inl UnicodeDecodeError)"
    using gather_images_depth [where read_lines = listings0 and soft_errors = True
        and file_list = "Some [''binary.dat'', ''list.txt'']" and image_list = "Some [''pics'']"
        and fs = fs0 and linesep = "[CHR 0x0A]" and fuel = "Suc (Suc 0)" and recurse = False
        and pre = "[]" and file_path = "''binary.dat''" and post = "[''list.txt'']"
        and err = UnicodeDecodeError]
    by blast
  then have b: "map_option snd
       (gather_images (Suc (Suc 0)) fs0 listings0 [CHR 0x0A] (Some [''pics''])
          (Some [''binary.dat'', ''list.txt'']) False True) =
     Some (Inl UnicodeDecodeError)"
    using u by (simp add: iter_none_def listing_ok_def)
  from ok g pres a u b show ?thesis by blast
qed

end
